theory Spec2Isabelle
  imports Main "HOL-Library.Sublist"
begin

section \<open>Python values\<close>

text \<open>
  A Python \<open>str\<close> is a sequence of Unicode code points, and \<open>len\<close> counts code points.
  A code point is a natural number here; \<open>str\<close> turns an ASCII literal into its code
  points. The source file stores several non-ASCII characters (the emoji of the templates,
  two of the separators of \<open>split_title_desc\<close>) as the code points that are written out
  below: they are taken from the file as it is.
\<close>

type_synonym pystr = "nat list"

definition str :: "string \<Rightarrow> pystr" where
  "str s = map of_char s"

datatype py_error = KeyError | ValueError | IndexError

text \<open>The slice \<open>xs[:n]\<close> for a Python integer \<open>n\<close>: a negative \<open>n\<close> counts from the end.\<close>

definition py_take :: "int \<Rightarrow> 'a list \<Rightarrow> 'a list" where
  "py_take n xs = (if 0 \<le> n then take (nat n) xs else take (length xs - nat (- n)) xs)"

text \<open>
  \<open>s.replace(old, new)\<close>: the occurrences of \<open>old\<close> are replaced from left to right without
  overlap; an empty \<open>old\<close> matches before every character and at the end.
\<close>

function replace_from :: "pystr \<Rightarrow> pystr \<Rightarrow> pystr \<Rightarrow> pystr" where
  "replace_from old new [] = []"
| "replace_from old new (c # cs) =
     (if old \<noteq> [] \<and> prefix old (c # cs)
      then new @ replace_from old new (drop (length old) (c # cs))
      else c # replace_from old new cs)"
  by pat_completeness auto
termination
  by (relation "measure (\<lambda>(old, new, s). length s)") auto

definition py_replace :: "pystr \<Rightarrow> pystr \<Rightarrow> pystr \<Rightarrow> pystr" where
  "py_replace old new s =
     (if old = [] then new @ concat (map (\<lambda>c. c # new) s) else replace_from old new s)"

text \<open>
  \<open>template.format(topic=topic)\<close>: \<open>{{\<close> and \<open>}}\<close> are escaped braces, \<open>{topic}\<close> is replaced
  by the topic. Every other replacement field and every unpaired brace raises; the templates
  of the source contain neither.
\<close>

fun format_topic :: "pystr \<Rightarrow> pystr \<Rightarrow> py_error + pystr" where
  "format_topic [] topic = Inr []"
| "format_topic (c # cs) topic =
     (if c = 123 then
        (if prefix [123] cs then map_sum id ((#) 123) (format_topic (tl cs) topic)
         else if prefix (str ''topic}'') cs
           then map_sum id ((@) topic) (format_topic (drop 6 cs) topic)
         else Inl KeyError)
      else if c = 125 then
        (if prefix [125] cs then map_sum id ((#) 125) (format_topic (tl cs) topic)
         else Inl ValueError)
      else map_sum id ((#) c) (format_topic cs topic))"

section \<open>ContentGenerator\<close>

definition platform_limits :: "(pystr \<times> int) list" where
  "platform_limits =
     [(str ''Twitter'', 280),
      (str ''Facebook'', 2000),
      (str ''Instagram'', 2200),
      (str ''LinkedIn'', 3000)]"

definition promotional_templates :: "pystr list" where
  "promotional_templates =
     [[0xF8FF, 0xFC, 0xF6, 0xC4] @ str '' Exciting news! {topic} is here to revolutionize your experience. Don't miss out on this amazing opportunity!'',
      [0x201A, 0xFA, 0xAE] @ str '' Discover the power of {topic}! Join thousands of satisfied customers who have already transformed their lives.'',
      [0xF8FF, 0xFC, 0xE9, 0xD8] @ str '' Ready to take your {topic} to the next level? Our solution is exactly what you've been looking for!'']"

definition informative_templates :: "pystr list" where
  "informative_templates =
     [str ''Did you know that {topic} can significantly impact your daily routine? Here are some key insights to consider.'',
      str ''Understanding {topic} is crucial in today's world. Let's explore the facts and benefits together.'',
      [0xF8FF, 0xFC, 0xEC, 0xE4] @ str '' Research shows that {topic} plays a vital role in modern business. Here's what you need to know.'']"

definition question_templates :: "pystr list" where
  "question_templates =
     [str ''What's your experience with {topic}? We'd love to hear your thoughts and stories!'',
      str ''How has {topic} changed your perspective? Share your insights in the comments below!'',
      [0xF8FF, 0xFC, 0xA7, 0xEE] @ str '' What would you do if {topic} wasn't available? Let's discuss the alternatives!'']"

definition content_templates :: "(pystr \<times> pystr list) list" where
  "content_templates =
     [(str ''promotional'', promotional_templates),
      (str ''informative'', informative_templates),
      (str ''question'', question_templates)]"

text \<open>\<open>d.get(key, default)\<close> and \<open>d[key]\<close> on a dictionary written as an association list.\<close>

definition dict_get :: "('k \<times> 'v) list \<Rightarrow> 'k \<Rightarrow> 'v \<Rightarrow> 'v" where
  "dict_get d k dflt = (case map_of d k of None \<Rightarrow> dflt | Some v \<Rightarrow> v)"

definition dict_item :: "('k \<times> 'v) list \<Rightarrow> 'k \<Rightarrow> py_error + 'v" where
  "dict_item d k = (case map_of d k of None \<Rightarrow> Inl KeyError | Some v \<Rightarrow> Inr v)"

text \<open>
  \<open>random.choice(xs)\<close> raises on an empty list and returns one of the elements otherwise.
  The random draw is the argument \<open>rnd\<close>: every index is reached by some \<open>rnd\<close>.
\<close>

definition random_choice :: "nat \<Rightarrow> 'a list \<Rightarrow> py_error + 'a" where
  "random_choice rnd xs = (if xs = [] then Inl IndexError else Inr (xs ! (rnd mod length xs)))"

definition select_templates :: "pystr \<Rightarrow> py_error + pystr list" where
  "select_templates content_type =
     (case dict_item content_templates (str ''informative'') of
        Inl e \<Rightarrow> Inl e
      | Inr dflt \<Rightarrow> Inr (dict_get content_templates content_type dflt))"

definition apply_tone :: "pystr \<Rightarrow> pystr \<Rightarrow> pystr" where
  "apply_tone tone generated_text =
     (if tone = str ''humorous'' then generated_text @ (str '' '' @ [0xF8FF, 0xFC, 0xF2, 0xD1])
      else if tone = str ''professional'' then py_replace (str ''!'') (str ''.'') generated_text
      else generated_text)"

definition add_cta :: "pystr \<Rightarrow> pystr \<Rightarrow> pystr" where
  "add_cta cta generated_text =
     (if cta \<noteq> [] then generated_text @ (str '' '' @ cta) else generated_text)"

definition platform_limit :: "pystr \<Rightarrow> int" where
  "platform_limit platform = dict_get platform_limits platform 2000"

definition fit_limit :: "pystr \<Rightarrow> pystr \<Rightarrow> pystr" where
  "fit_limit platform generated_text =
     (if int (length generated_text) > platform_limit platform
      then py_take (platform_limit platform - 3) generated_text @ str ''...''
      else generated_text)"

definition generate_text_post ::
  "nat \<Rightarrow> pystr \<Rightarrow> pystr \<Rightarrow> pystr \<Rightarrow> pystr \<Rightarrow> pystr \<Rightarrow> py_error + pystr" where
  "generate_text_post rnd topic content_type platform tone cta =
     (case select_templates content_type of
        Inl e \<Rightarrow> Inl e
      | Inr templates \<Rightarrow>
          (case random_choice rnd templates of
             Inl e \<Rightarrow> Inl e
           | Inr base_template \<Rightarrow>
               (case format_topic base_template topic of
                  Inl e \<Rightarrow> Inl e
                | Inr generated_text \<Rightarrow>
                    Inr (fit_limit platform (add_cta cta (apply_tone tone generated_text))))))"

section \<open>Unicode tables\<close>

text \<open>
  \<open>str.lower\<close>, \<open>str.title\<close>, \<open>str.strip\<close> and the classes \<open>\s\<close>, \<open>\d\<close>, \<open>\w\<close> and the case-insensitive
  comparison of \<open>re\<close> read Python's Unicode database, which is not part of the repository.
  The functions that use them take the tables as the argument \<open>U\<close>; what is proved for every
  \<open>U\<close> holds for Python's tables. \<open>ascii_tables\<close> agrees with Python on the code points below
  128 and is used to evaluate examples written in ASCII.
\<close>

record unicode =
  u_lower :: "pystr \<Rightarrow> pystr"
  u_title :: "pystr \<Rightarrow> pystr"
  u_isspace :: "nat \<Rightarrow> bool"
  u_isdecimal :: "nat \<Rightarrow> bool"
  u_isword :: "nat \<Rightarrow> bool"
  u_ieq :: "nat \<Rightarrow> nat \<Rightarrow> bool"

definition ascii_lower :: "nat \<Rightarrow> nat" where
  "ascii_lower c = (if 65 \<le> c \<and> c \<le> 90 then c + 32 else c)"

definition ascii_upper :: "nat \<Rightarrow> nat" where
  "ascii_upper c = (if 97 \<le> c \<and> c \<le> 122 then c - 32 else c)"

text \<open>
  \<open>str.title\<close>: a letter that follows a letter is lowercased, every other letter is
  uppercased. \<open>prev\<close> tells whether the previous character is a letter.
\<close>

fun ascii_title_from :: "bool \<Rightarrow> pystr \<Rightarrow> pystr" where
  "ascii_title_from prev [] = []"
| "ascii_title_from prev (c # cs) =
     (if (65 \<le> c \<and> c \<le> 90) \<or> (97 \<le> c \<and> c \<le> 122)
      then (if prev then ascii_lower c else ascii_upper c) # ascii_title_from True cs
      else c # ascii_title_from False cs)"

definition ascii_isspace :: "nat \<Rightarrow> bool" where
  "ascii_isspace c = ((9 \<le> c \<and> c \<le> 13) \<or> (28 \<le> c \<and> c \<le> 32))"

definition ascii_isdecimal :: "nat \<Rightarrow> bool" where
  "ascii_isdecimal c = (48 \<le> c \<and> c \<le> 57)"

definition ascii_isword :: "nat \<Rightarrow> bool" where
  "ascii_isword c =
     ((48 \<le> c \<and> c \<le> 57) \<or> (65 \<le> c \<and> c \<le> 90) \<or> c = 95 \<or> (97 \<le> c \<and> c \<le> 122))"

definition ascii_tables :: unicode where
  "ascii_tables =
     \<lparr> u_lower = map ascii_lower,
       u_title = ascii_title_from False,
       u_isspace = ascii_isspace,
       u_isdecimal = ascii_isdecimal,
       u_isword = ascii_isword,
       u_ieq = (\<lambda>p c. ascii_lower p = ascii_lower c) \<rparr>"

text \<open>\<open>sub in s\<close> for strings: \<open>sub\<close> occurs in \<open>s\<close> as a contiguous substring.\<close>

fun py_contains :: "pystr \<Rightarrow> pystr \<Rightarrow> bool" where
  "py_contains sub [] = (sub = [])"
| "py_contains sub (c # cs) = (prefix sub (c # cs) \<or> py_contains sub cs)"

section \<open>HashtagSuggester\<close>

definition hashtag_database :: "(pystr \<times> pystr list) list" where
  "hashtag_database =
     [(str ''business'',
         [str ''#business'', str ''#entrepreneur'', str ''#startup'', str ''#success'', str ''#growth'']),
      (str ''technology'',
         [str ''#tech'', str ''#innovation'', str ''#digital'', str ''#AI'', str ''#future'']),
      (str ''marketing'',
         [str ''#marketing'', str ''#socialmedia'', str ''#branding'', str ''#content'', str ''#strategy'']),
      (str ''health'',
         [str ''#health'', str ''#wellness'', str ''#fitness'', str ''#lifestyle'', str ''#selfcare'']),
      (str ''education'',
         [str ''#education'', str ''#learning'', str ''#knowledge'', str ''#skills'', str ''#development''])]"

definition trending_hashtags :: "pystr list" where
  "trending_hashtags =
     [str ''#trending'', str ''#viral'', str ''#popular'', str ''#2025'', str ''#new'']"

definition generic_hashtags :: "pystr list" where
  "generic_hashtags =
     [str ''#content'', str ''#social'', str ''#post'', str ''#share'', str ''#engage'']"

text \<open>
  \<open>random.sample(xs, k)\<close> raises when \<open>k\<close> exceeds the length and returns the elements at
  \<open>k\<close> different positions otherwise. The random draws are the list \<open>rnds\<close> (a missing draw
  counts as 0): every choice of \<open>k\<close> different positions, in every order, is reached.
\<close>

fun pick :: "nat list \<Rightarrow> 'a list \<Rightarrow> nat \<Rightarrow> 'a list" where
  "pick rnds xs 0 = []"
| "pick rnds xs (Suc k) =
     (if xs = [] then []
      else (let i = (case rnds of [] \<Rightarrow> 0 | r # _ \<Rightarrow> r) mod length xs
            in xs ! i # pick (tl rnds) (take i xs @ drop (Suc i) xs) k))"

definition random_sample :: "nat list \<Rightarrow> 'a list \<Rightarrow> nat \<Rightarrow> py_error + 'a list" where
  "random_sample rnds xs k = (if length xs < k then Inl ValueError else Inr (pick rnds xs k))"

text \<open>
  \<open>list(s)\<close> for a set \<open>s\<close> of strings: the elements, each once, in the order of iteration of
  the set, which depends on the hashes of the strings and changes from run to run. The
  argument \<open>h\<close> ranks the elements: every order of the elements is reached by some \<open>h\<close>.
  The elements of the set are given as the list of the strings added to it.
\<close>

definition list_of_set :: "(pystr \<Rightarrow> nat) \<Rightarrow> pystr list \<Rightarrow> pystr list" where
  "list_of_set h added = sort_key h (remdups added)"

text \<open>The loop over \<open>hashtag_database\<close>: the strings added to the set, in the order of the loop.\<close>

definition category_matches :: "unicode \<Rightarrow> pystr \<Rightarrow> pystr list" where
  "category_matches U text =
     concat (map (\<lambda>(category, hashtags).
                    if py_contains category (u_lower U text) then py_take 3 hashtags else [])
                 hashtag_database)"

text \<open>The \<open>for\<close> loop over the generic hashtags, with its \<open>break\<close>.\<close>

fun add_generic :: "pystr list \<Rightarrow> int \<Rightarrow> pystr list \<Rightarrow> pystr list" where
  "add_generic [] count hashtag_list = hashtag_list"
| "add_generic (hashtag # rest) count hashtag_list =
     (if hashtag \<notin> set hashtag_list
      then (if count \<le> int (length (hashtag_list @ [hashtag]))
            then hashtag_list @ [hashtag]
            else add_generic rest count (hashtag_list @ [hashtag]))
      else add_generic rest count hashtag_list)"

text \<open>The \<open>while\<close> loop; \<open>None\<close> is a loop that never ends.\<close>

partial_function (option) pad_loop :: "int \<Rightarrow> pystr list \<Rightarrow> pystr list option" where
  "pad_loop count hashtag_list =
     (if int (length hashtag_list) < count
      then pad_loop count (add_generic generic_hashtags count hashtag_list)
      else Some hashtag_list)"

declare pad_loop.simps [code]

definition suggest_hashtags ::
  "unicode \<Rightarrow> (pystr \<Rightarrow> nat) \<Rightarrow> nat list \<Rightarrow> pystr \<Rightarrow> int \<Rightarrow> (py_error + pystr list) option" where
  "suggest_hashtags U h rnds text count =
     (case random_sample rnds trending_hashtags (min 2 (length trending_hashtags)) of
        Inl e \<Rightarrow> Some (Inl e)
      | Inr sampled \<Rightarrow>
          (let suggested_hashtags = category_matches U text @ sampled;
               hashtag_list = py_take count (list_of_set h suggested_hashtags)
           in map_option (\<lambda>l. Inr (py_take count l)) (pad_loop count hashtag_list)))"

section \<open>ImageIdeaGenerator\<close>

definition image_styles :: "pystr list" where
  "image_styles =
     [str ''professional photography'',
      str ''minimalist design'',
      str ''vibrant colors'',
      str ''modern illustration'',
      str ''infographic style'']"

definition image_elements :: "pystr list" where
  "image_elements =
     [str ''people working together'',
      str ''technology devices'',
      str ''abstract concepts'',
      str ''nature elements'',
      str ''geometric shapes'']"

text \<open>
  \<open>re.findall(r'\b\w+\b', s)\<close>: the maximal runs of word characters of \<open>s\<close>, from left to
  right. A match starts at a word character that follows no word character, \<open>\w+\<close> takes the
  whole run, and the search goes on behind it.
\<close>

function re_findall_words :: "unicode \<Rightarrow> pystr \<Rightarrow> pystr list" where
  "re_findall_words U [] = []"
| "re_findall_words U (c # cs) =
     (if u_isword U c
      then takeWhile (u_isword U) (c # cs) # re_findall_words U (dropWhile (u_isword U) (c # cs))
      else re_findall_words U cs)"
  by pat_completeness auto
termination
  by (relation "measure (\<lambda>(U, s). length s)") (auto simp add: length_dropWhile_le less_Suc_eq_le)

definition common_words :: "pystr set" where
  "common_words =
     {str ''the'', str ''a'', str ''an'', str ''and'', str ''or'', str ''but'', str ''in'',
      str ''on'', str ''at'', str ''to'', str ''for'', str ''of'', str ''with'', str ''by''}"

definition extract_keywords :: "unicode \<Rightarrow> pystr \<Rightarrow> pystr list" where
  "extract_keywords U text =
     (let words = re_findall_words U (u_lower U text);
          keywords = filter (\<lambda>word. length word > 3 \<and> word \<notin> common_words) words
      in py_take 5 keywords)"

text \<open>\<open>sep.join(xs)\<close>.\<close>

fun py_join :: "pystr \<Rightarrow> pystr list \<Rightarrow> pystr" where
  "py_join sep [] = []"
| "py_join sep [x] = x"
| "py_join sep (x # y # ys) = x @ sep @ py_join sep (y # ys)"

definition make_idea :: "unicode \<Rightarrow> pystr list \<Rightarrow> pystr \<Rightarrow> pystr \<Rightarrow> pystr" where
  "make_idea U keywords style element =
     (if keywords \<noteq> []
      then u_title U style @ str '' featuring '' @ element @ str '' related to ''
             @ py_join (str '', '') (py_take 2 keywords)
      else u_title U style @ str '' featuring '' @ element)"

text \<open>The inner loop over the elements and the outer loop over the styles, with their \<open>break\<close>s.\<close>

fun ideas_for_style :: "unicode \<Rightarrow> pystr list \<Rightarrow> pystr \<Rightarrow> pystr list \<Rightarrow> pystr list \<Rightarrow> pystr list" where
  "ideas_for_style U keywords style [] ideas = ideas"
| "ideas_for_style U keywords style (element # rest) ideas =
     (if 5 \<le> length (ideas @ [make_idea U keywords style element])
      then ideas @ [make_idea U keywords style element]
      else ideas_for_style U keywords style rest (ideas @ [make_idea U keywords style element]))"

fun ideas_for_styles :: "unicode \<Rightarrow> pystr list \<Rightarrow> pystr list \<Rightarrow> pystr list \<Rightarrow> pystr list \<Rightarrow> pystr list" where
  "ideas_for_styles U keywords [] elements ideas = ideas"
| "ideas_for_styles U keywords (style # rest) elements ideas =
     (if 5 \<le> length (ideas_for_style U keywords style elements ideas)
      then ideas_for_style U keywords style elements ideas
      else ideas_for_styles U keywords rest elements (ideas_for_style U keywords style elements ideas))"

definition generate_ideas :: "unicode \<Rightarrow> pystr \<Rightarrow> pystr list" where
  "generate_ideas U text_post =
     (let keywords = extract_keywords U text_post
      in ideas_for_styles U keywords (py_take 3 image_styles) (py_take 2 image_elements) [])"

section \<open>Functions of the page that shows the results\<close>

text \<open>\<open>s.strip()\<close> removes the whitespace at both ends.\<close>

definition py_strip :: "unicode \<Rightarrow> pystr \<Rightarrow> pystr" where
  "py_strip U s = rev (dropWhile (u_isspace U) (rev (dropWhile (u_isspace U) s)))"

text \<open>
  \<open>s.split(sep, 1)\<close> splits at the leftmost occurrence of \<open>sep\<close> and returns one part when
  there is none; an empty separator raises. \<open>xs[i]\<close> raises outside the list.
\<close>

fun split_first :: "pystr \<Rightarrow> pystr \<Rightarrow> pystr list" where
  "split_first sep [] = [[]]"
| "split_first sep (c # cs) =
     (if prefix sep (c # cs) then [[], drop (length sep) (c # cs)]
      else (case split_first sep cs of
              [] \<Rightarrow> []
            | before # after \<Rightarrow> (c # before) # after))"

definition py_split1 :: "pystr \<Rightarrow> pystr \<Rightarrow> py_error + pystr list" where
  "py_split1 sep s = (if sep = [] then Inl ValueError else Inr (split_first sep s))"

definition py_index :: "'a list \<Rightarrow> nat \<Rightarrow> py_error + 'a" where
  "py_index xs i = (if i < length xs then Inr (xs ! i) else Inl IndexError)"

subsection \<open>split_title_desc\<close>

text \<open>
  The third and the fourth separator are stored in the source file as a space, the code
  points U+201A, U+00C4, U+00EC (U+00EE in the fourth) and a space.
\<close>

definition separators :: "pystr list" where
  "separators =
     [str '': '',
      str '' - '',
      str '' '' @ [0x201A, 0xC4, 0xEC] @ str '' '',
      str '' '' @ [0x201A, 0xC4, 0xEE] @ str '' '',
      str ''. '']"

fun split_title_desc_from ::
  "unicode \<Rightarrow> pystr list \<Rightarrow> pystr \<Rightarrow> py_error + (pystr \<times> pystr option)" where
  "split_title_desc_from U [] line = Inr (py_strip U line, None)"
| "split_title_desc_from U (sep # seps) line =
     (if py_contains sep line
      then (case py_split1 sep line of
              Inl e \<Rightarrow> Inl e
            | Inr parts \<Rightarrow>
                (case py_index parts 0 of
                   Inl e \<Rightarrow> Inl e
                 | Inr title \<Rightarrow>
                     (case py_index parts 1 of
                        Inl e \<Rightarrow> Inl e
                      | Inr desc \<Rightarrow> Inr (py_strip U title, Some (py_strip U desc)))))
      else split_title_desc_from U seps line)"

definition split_title_desc :: "unicode \<Rightarrow> pystr \<Rightarrow> py_error + (pystr \<times> pystr option)" where
  "split_title_desc U line = split_title_desc_from U separators line"

subsection \<open>parse_complex_result\<close>

text \<open>
  The pattern \<open>\n?\d+\.\s*\<close> matched at the start of a string; the result is what follows
  the match. \<open>\d+\<close> takes as many digits as it can and gives them back one by one until a
  dot follows; \<open>\n?\<close> takes the newline when there is one and gives it back when the rest
  does not match; \<open>\s*\<close> takes all the whitespace that follows.
\<close>

fun match_digits_dot :: "unicode \<Rightarrow> pystr \<Rightarrow> pystr option" where
  "match_digits_dot U [] = None"
| "match_digits_dot U (c # cs) =
     (case (if u_isdecimal U c then match_digits_dot U cs else None) of
        Some rest \<Rightarrow> Some rest
      | None \<Rightarrow> if c = 46 then Some cs else None)"

definition match_number_dot :: "unicode \<Rightarrow> pystr \<Rightarrow> pystr option" where
  "match_number_dot U s =
     (case s of [] \<Rightarrow> None | c # cs \<Rightarrow> if u_isdecimal U c then match_digits_dot U cs else None)"

definition match_marker :: "unicode \<Rightarrow> pystr \<Rightarrow> pystr option" where
  "match_marker U s =
     map_option (dropWhile (u_isspace U))
       (case (case s of [] \<Rightarrow> None | c # cs \<Rightarrow> if c = 10 then match_number_dot U cs else None) of
          Some rest \<Rightarrow> Some rest
        | None \<Rightarrow> match_number_dot U s)"

text \<open>\<open>re.sub(r"\n?\d+\.\s*", "\n", text)\<close>: every match, from left to right, becomes a newline.\<close>

function re_sub_markers :: "unicode \<Rightarrow> pystr \<Rightarrow> pystr" where
  "re_sub_markers U [] = []"
| "re_sub_markers U (c # cs) =
     (case match_marker U (c # cs) of
        Some rest \<Rightarrow> 10 # re_sub_markers U rest
      | None \<Rightarrow> c # re_sub_markers U cs)"
  by pat_completeness auto
termination
proof (relation "measure (\<lambda>(U, s). length s)")
  show "wf (measure (\<lambda>(U :: unicode, s :: pystr). length s))" by simp
next
  fix U :: unicode and c :: nat and cs rest :: pystr
  have dd: "\<And>s r. match_digits_dot U s = Some r \<Longrightarrow> length r < length s"
  proof -
    fix s r show "match_digits_dot U s = Some r \<Longrightarrow> length r < length s"
      by (induction s arbitrary: r) (auto split: if_splits option.splits)
  qed
  have nd: "\<And>s r. match_number_dot U s = Some r \<Longrightarrow> length r < length s"
    by (auto simp add: match_number_dot_def split: list.splits if_splits dest!: dd)
  assume "match_marker U (c # cs) = Some rest"
  then obtain r where r: "rest = dropWhile (u_isspace U) r" and "length r < length (c # cs)"
    by (auto simp add: match_marker_def split: if_splits option.splits dest!: nd)
  moreover have "length (dropWhile (u_isspace U) r) \<le> length r" by (rule length_dropWhile_le)
  ultimately show "((U, rest), (U, c # cs)) \<in> measure (\<lambda>(U, s). length s)" by simp
next
  fix U :: unicode and c :: nat and cs :: pystr
  show "((U, cs), (U, c # cs)) \<in> measure (\<lambda>(U, s). length s)" by simp
qed

text \<open>
  \<open>re.search(rf"{key}[:\s]*([^\n]*)", text, re.IGNORECASE)\<close>: the key is matched letter by
  letter without regard to case at the leftmost place where it occurs; colons and whitespace
  are skipped; group 1 is the rest of the line. The result is group 1, \<open>None\<close> without a match.
\<close>

fun ci_prefix :: "unicode \<Rightarrow> pystr \<Rightarrow> pystr \<Rightarrow> bool" where
  "ci_prefix U [] s = True"
| "ci_prefix U (p # ps) [] = False"
| "ci_prefix U (p # ps) (c # cs) = (u_ieq U p c \<and> ci_prefix U ps cs)"

definition group1 :: "unicode \<Rightarrow> pystr \<Rightarrow> pystr" where
  "group1 U rest = takeWhile (\<lambda>c. c \<noteq> 10) (dropWhile (\<lambda>c. c = 58 \<or> u_isspace U c) rest)"

fun re_search_key :: "unicode \<Rightarrow> pystr \<Rightarrow> pystr \<Rightarrow> pystr option" where
  "re_search_key U key [] = (if ci_prefix U key [] then Some (group1 U []) else None)"
| "re_search_key U key (c # cs) =
     (if ci_prefix U key (c # cs) then Some (group1 U (drop (length key) (c # cs)))
      else re_search_key U key cs)"

definition result_keys :: "pystr list" where
  "result_keys =
     [str ''Caption'', str ''Post Idea'', str ''Hashtags'', str ''Visual/Design Suggestion'']"

text \<open>The dictionary \<open>result\<close> as the list of its items, in the order of its keys.\<close>

definition parse_complex_result :: "unicode \<Rightarrow> pystr \<Rightarrow> (pystr \<times> pystr) list" where
  "parse_complex_result U text =
     (let text' = re_sub_markers U text
      in map (\<lambda>key. (key, case re_search_key U key text' of
                              None \<Rightarrow> []
                            | Some g \<Rightarrow> py_strip U g))
             result_keys)"

section \<open>Properties of ContentGenerator\<close>

lemma replace_from_single:
  "replace_from [a] [b] s = map (\<lambda>c. if c = a then b else c) s"
  by (induction s) auto

lemma professional_map:
  "py_replace (str ''!'') (str ''.'') s = map (\<lambda>c. if c = 33 then 46 else c) s"
  by (simp add: py_replace_def str_def replace_from_single)

lemma format_promotional:
  "t \<in> set promotional_templates \<Longrightarrow> \<exists>g. format_topic t topic = Inr g"
  by (auto simp add: promotional_templates_def str_def)

lemma format_informative:
  "t \<in> set informative_templates \<Longrightarrow> \<exists>g. format_topic t topic = Inr g"
  by (auto simp add: informative_templates_def str_def)

lemma format_question:
  "t \<in> set question_templates \<Longrightarrow> \<exists>g. format_topic t topic = Inr g"
  by (auto simp add: question_templates_def str_def)

lemma pools_nonempty:
  "promotional_templates \<noteq> []" "informative_templates \<noteq> []" "question_templates \<noteq> []"
  by (simp_all add: promotional_templates_def informative_templates_def question_templates_def)

lemma select_templates_cases:
  "select_templates content_type =
     Inr (if content_type = str ''promotional'' then promotional_templates
          else if content_type = str ''informative'' then informative_templates
          else if content_type = str ''question'' then question_templates
          else informative_templates)"
  by (simp add: select_templates_def dict_item_def dict_get_def content_templates_def str_def)

lemma select_templates_pool:
  "\<exists>ts. select_templates content_type = Inr ts \<and> ts \<noteq> [] \<and>
        (\<forall>t \<in> set ts. \<exists>g. format_topic t topic = Inr g)"
  using pools_nonempty format_promotional format_informative format_question
  by (simp add: select_templates_cases)

lemma random_choice_member:
  "xs \<noteq> [] \<Longrightarrow> \<exists>x \<in> set xs. random_choice rnd xs = Inr x"
  by (simp add: random_choice_def)

lemma platform_limit_cases:
  "platform_limit platform =
     (if platform = str ''Twitter'' then 280
      else if platform = str ''Facebook'' then 2000
      else if platform = str ''Instagram'' then 2200
      else if platform = str ''LinkedIn'' then 3000 else 2000)"
  by (simp add: platform_limit_def dict_get_def platform_limits_def str_def)

lemma platform_limit_ge: "280 \<le> platform_limit platform"
  by (simp add: platform_limit_cases)

lemma fit_limit_long:
  assumes "int (length a) > platform_limit platform"
  shows "fit_limit platform a = take (nat (platform_limit platform - 3)) a @ str ''...''"
    and "int (length (fit_limit platform a)) = platform_limit platform"
  using assms platform_limit_ge[of platform]
  by (auto simp add: fit_limit_def py_take_def str_def)

lemma fit_limit_short:
  "int (length a) \<le> platform_limit platform \<Longrightarrow> fit_limit platform a = a"
  by (simp add: fit_limit_def)

lemma generate_text_post_steps:
  "\<exists>ts t g. select_templates content_type = Inr ts \<and> random_choice rnd ts = Inr t \<and>
      t \<in> set ts \<and> format_topic t topic = Inr g \<and> 
      generate_text_post rnd topic content_type platform tone cta =
        Inr (fit_limit platform (add_cta cta (apply_tone tone g)))"
proof -
  obtain ts where ts: "select_templates content_type = Inr ts" "ts \<noteq> []"
    "\<forall>t \<in> set ts. \<exists>g. format_topic t topic = Inr g"
    using select_templates_pool by blast
  obtain t where t: "t \<in> set ts" "random_choice rnd ts = Inr t"
    using random_choice_member[OF ts(2)] by blast
  obtain g where g: "format_topic t topic = Inr g"
    using ts(3) t(1) by blast
  show ?thesis
    using ts(1) t g by (auto simp add: generate_text_post_def)
qed

text \<open>
  Claim C1. For every topic, content type, tone, call to action, random draw and platform,
  \<open>generate_text_post\<close> returns a string whose length is at most the platform's limit; a
  platform that is not in \<open>platform_limits\<close> has the limit 2000. When the assembled text
  (template filled, tone applied, call to action appended) is longer than the limit, the
  result is its first \<open>limit - 3\<close> characters followed by \<open>...\<close> and has exactly \<open>limit\<close>
  characters; otherwise the result is the assembled text.
\<close>

theorem generate_text_post_within_limit:
  "\<exists>ts t g s. select_templates content_type = Inr ts \<and> random_choice rnd ts = Inr t \<and>
      format_topic t topic = Inr g \<and>
      generate_text_post rnd topic content_type platform tone cta = Inr s \<and>
      int (length s) \<le> platform_limit platform \<and>
      (platform \<notin> fst ` set platform_limits \<longrightarrow> platform_limit platform = 2000) \<and>
      (let assembled = add_cta cta (apply_tone tone g) in
        (int (length assembled) > platform_limit platform \<longrightarrow>
           s = take (nat (platform_limit platform - 3)) assembled @ str ''...'' \<and>
           int (length s) = platform_limit platform) \<and>
        (int (length assembled) \<le> platform_limit platform \<longrightarrow> s = assembled))"
proof -
  obtain ts t g where st: "select_templates content_type = Inr ts" "random_choice rnd ts = Inr t"
      "format_topic t topic = Inr g"
      "generate_text_post rnd topic content_type platform tone cta =
        Inr (fit_limit platform (add_cta cta (apply_tone tone g)))"
    using generate_text_post_steps by blast
  let ?a = "add_cta cta (apply_tone tone g)"
  have len: "int (length (fit_limit platform ?a)) \<le> platform_limit platform"
    using fit_limit_long(2)[of platform ?a] fit_limit_short[of ?a platform]
    by (cases "int (length ?a) > platform_limit platform") auto
  have dflt: "platform \<notin> fst ` set platform_limits \<longrightarrow> platform_limit platform = 2000"
    by (auto simp add: platform_limit_cases platform_limits_def)
  show ?thesis
    using st len dflt fit_limit_long[of platform ?a] fit_limit_short[of ?a platform]
    by (auto simp add: Let_def)
qed

theorem generate_text_post_within_limit_witness:
  "str ''Mastodon'' \<notin> fst ` set platform_limits \<and>
   platform_limit (str ''Mastodon'') = 2000 \<and>
   (\<exists>s. generate_text_post 0 (str ''tea'') (str ''informative'') (str ''Mastodon'') (str ''casual'') [] = Inr s
        \<and> int (length s) \<le> 2000) \<and>
   (\<exists>s. generate_text_post 0 (replicate 300 120) (str ''informative'') (str ''Twitter'') (str ''casual'') [] = Inr s
        \<and> int (length s) = 280)"
  using generate_text_post_within_limit[where content_type = "str ''informative''" and rnd = 0
      and topic = "str ''tea''" and platform = "str ''Mastodon''" and tone = "str ''casual''" and cta = "[]"]
    generate_text_post_within_limit[where content_type = "str ''informative''" and rnd = 0
      and topic = "replicate 300 120" and platform = "str ''Twitter''" and tone = "str ''casual''" and cta = "[]"]
  apply (simp add: select_templates_cases random_choice_def platform_limit_cases platform_limits_def)
  apply (simp add: informative_templates_def add_cta_def apply_tone_def str_def Let_def)
  done

text \<open>
  Claim C4. Replacing every \<open>!\<close> by \<open>.\<close>, the transformation of the professional tone, is
  idempotent: applying it twice gives the same string as applying it once.
\<close>

theorem professional_tone_idempotent:
  "py_replace (str ''!'') (str ''.'') (py_replace (str ''!'') (str ''.'') s) =
     py_replace (str ''!'') (str ''.'') s \<and>
   apply_tone (str ''professional'') (apply_tone (str ''professional'') s) =
     apply_tone (str ''professional'') s"
  by (simp add: apply_tone_def professional_map) (simp add: str_def)

text \<open>
  Claim C9. A content type that is not a key of \<open>content_templates\<close> selects the informative
  pool, and the post is the one generated for the content type \<open>informative\<close>; a known
  content type selects its own pool; in both cases \<open>generate_text_post\<close> raises nothing and
  returns the string made from a template of the selected pool.
\<close>

theorem unknown_content_type_informative:
  "(content_type \<notin> fst ` set content_templates \<longrightarrow>
      select_templates content_type = Inr informative_templates \<and>
      generate_text_post rnd topic content_type platform tone cta =
        generate_text_post rnd topic (str ''informative'') platform tone cta) \<and>
   (\<forall>pool. (content_type, pool) \<in> set content_templates \<longrightarrow>
      select_templates content_type = Inr pool) \<and>
   (\<exists>ts t g. select_templates content_type = Inr ts \<and> t \<in> set ts \<and>
      format_topic t topic = Inr g \<and>
      generate_text_post rnd topic content_type platform tone cta =
        Inr (fit_limit platform (add_cta cta (apply_tone tone g))))"
proof -
  have unknown: "content_type \<notin> fst ` set content_templates \<Longrightarrow>
      select_templates content_type = Inr informative_templates"
    by (simp add: select_templates_cases content_templates_def)
  have inf: "select_templates (str ''informative'') = Inr informative_templates"
    by (simp add: select_templates_cases str_def)
  have known: "\<And>pool. (content_type, pool) \<in> set content_templates \<Longrightarrow>
      select_templates content_type = Inr pool"
    by (auto simp add: select_templates_cases content_templates_def str_def)
  have ret: "\<exists>ts t g. select_templates content_type = Inr ts \<and> t \<in> set ts \<and>
      format_topic t topic = Inr g \<and>
      generate_text_post rnd topic content_type platform tone cta =
        Inr (fit_limit platform (add_cta cta (apply_tone tone g)))"
    using generate_text_post_steps[of content_type rnd topic platform tone cta] by blast
  have same: "content_type \<notin> fst ` set content_templates \<Longrightarrow>
      generate_text_post rnd topic content_type platform tone cta =
        generate_text_post rnd topic (str ''informative'') platform tone cta"
    using unknown inf by (simp add: generate_text_post_def)
  show ?thesis
    using unknown same known ret by blast
qed

theorem unknown_content_type_informative_witness:
  "str ''viral'' \<notin> fst ` set content_templates \<and>
   select_templates (str ''viral'') = Inr informative_templates \<and>
   (str ''question'', question_templates) \<in> set content_templates \<and>
   select_templates (str ''question'') = Inr question_templates \<and>
   (\<exists>s. generate_text_post 1 (str ''tea'') (str ''viral'') (str ''Twitter'') (str ''casual'') [] = Inr s)"
proof -
  have u: "str ''viral'' \<notin> fst ` set content_templates"
    by (simp add: content_templates_def str_def)
  have k: "(str ''question'', question_templates) \<in> set content_templates"
    by (simp add: content_templates_def)
  note a = unknown_content_type_informative[where content_type = "str ''viral''" and rnd = 1
      and topic = "str ''tea''" and platform = "str ''Twitter''" and tone = "str ''casual''"
      and cta = "[]"]
  note b = unknown_content_type_informative[where content_type = "str ''question''" and rnd = 1
      and topic = "str ''tea''" and platform = "str ''Twitter''" and tone = "str ''casual''"
      and cta = "[]"]
  show ?thesis
    using a b u k by blast
qed

section \<open>Properties of HashtagSuggester\<close>

lemma py_take_nonneg: "0 \<le> n \<Longrightarrow> py_take n xs = take (nat n) xs"
  by (simp add: py_take_def)

lemma add_generic_distinct:
  "distinct hl \<Longrightarrow> distinct (add_generic gs count hl)"
  by (induction gs count hl rule: add_generic.induct) auto

lemma add_generic_subset:
  "set (add_generic gs count hl) \<subseteq> set hl \<union> set gs"
  by (induction gs count hl rule: add_generic.induct) auto

lemma add_generic_keeps:
  "set hl \<subseteq> set (add_generic gs count hl)"
  by (induction gs count hl rule: add_generic.induct) auto

lemma add_generic_exhausted:
  "int (length (add_generic gs count hl)) < count \<Longrightarrow> set gs \<subseteq> set (add_generic gs count hl)"
proof (induction gs count hl rule: add_generic.induct)
  case (1 count hl)
  then show ?case by simp
next
  case (2 g rest count hl)
  then show ?case
    using add_generic_keeps[of "hl @ [g]" rest count] add_generic_keeps[of hl rest count]
    by (auto split: if_splits)
qed

lemma add_generic_nothing_new:
  "set gs \<subseteq> set hl \<Longrightarrow> add_generic gs count hl = hl"
  by (induction gs count hl rule: add_generic.induct) auto

lemma add_generic_reaches:
  "distinct gs \<Longrightarrow> int (length hl) < count \<Longrightarrow>
   count \<le> int (length hl + length (filter (\<lambda>g. g \<notin> set hl) gs)) \<Longrightarrow>
   int (length (add_generic gs count hl)) = count"
proof (induction gs count hl rule: add_generic.induct)
  case (1 count hl)
  then show ?case by simp
next
  case (2 g rest count hl)
  show ?case
  proof (cases "g \<in> set hl")
    case True
    with 2 show ?thesis by simp
  next
    case False
    have f: "filter (\<lambda>x. x \<notin> set (hl @ [g])) rest = filter (\<lambda>x. x \<notin> set hl) rest"
      using "2.prems"(1) by (auto intro: filter_cong)
    show ?thesis
    proof (cases "count \<le> int (length (hl @ [g]))")
      case True
      with False "2.prems" show ?thesis by simp
    next
      case nb: False
      have "int (length (add_generic rest count (hl @ [g]))) = count"
        using "2.IH"(1)[OF False nb] "2.prems" False nb f by simp
      with False nb show ?thesis by simp
    qed
  qed
qed

lemma pad_loop_stuck:
  assumes "int (length hl) < count" and "add_generic generic_hashtags count hl = hl"
  shows "pad_loop count hl = None"
proof (rule ccontr)
  assume "pad_loop count hl \<noteq> None"
  then obtain y where y: "pad_loop count hl = Some y" by auto
  have "\<not> (int (length hl) < count \<and> add_generic generic_hashtags count hl = hl)"
    using y
  proof (induction rule: pad_loop.raw_induct[rotated 1, consumes 1])
    case (1 pad_loop' count hl y)
    show ?case
    proof
      assume s: "int (length hl) < count \<and> add_generic generic_hashtags count hl = hl"
      with 1(2) have "pad_loop' count hl = Some y" by simp
      from 1(1)[OF this] s show False by simp
    qed
  qed
  with assms show False by simp
qed

lemma card_union_filter:
  "distinct xs \<Longrightarrow> distinct gs \<Longrightarrow>
   card (set xs \<union> set gs) = length xs + length (filter (\<lambda>g. g \<notin> set xs) gs)"
proof -
  assume d: "distinct xs" "distinct gs"
  have "set xs \<union> set gs = set (xs @ filter (\<lambda>g. g \<notin> set xs) gs)" by auto
  moreover have "distinct (xs @ filter (\<lambda>g. g \<notin> set xs) gs)" using d by auto
  ultimately show ?thesis by (metis distinct_card length_append)
qed

lemma list_of_set_props:
  "distinct (list_of_set h added)" "set (list_of_set h added) = set added"
  by (simp_all add: list_of_set_def)

lemma generic_distinct: "distinct generic_hashtags"
  by (simp add: generic_hashtags_def str_def)

lemma sample_trending:
  "\<exists>sampled. random_sample rnds trending_hashtags (min 2 (length trending_hashtags)) = Inr sampled"
  by (simp add: random_sample_def trending_hashtags_def)

lemma suggest_hashtags_enough:
  assumes smp: "random_sample rnds trending_hashtags (min 2 (length trending_hashtags)) = Inr sampled"
    and n0: "0 \<le> N"
    and nle: "N \<le> int (card (set (category_matches U text) \<union> set sampled \<union> set generic_hashtags))"
  shows "\<exists>l. suggest_hashtags U h rnds text N = Some (Inr l) \<and> int (length l) = N"
proof -
  let ?ord = "list_of_set h (category_matches U text @ sampled)"
  let ?hl0 = "py_take N ?ord"
  have d: "distinct ?ord" and s: "set ?ord = set (category_matches U text) \<union> set sampled"
    by (simp_all add: list_of_set_props)
  have sh: "suggest_hashtags U h rnds text N = map_option (\<lambda>l. Inr (py_take N l)) (pad_loop N ?hl0)"
    using smp by (simp add: suggest_hashtags_def Let_def)
  show ?thesis
  proof (cases "N \<le> int (length ?ord)")
    case True
    then have len: "int (length ?hl0) = N" using n0 by (simp add: py_take_nonneg)
    then have "pad_loop N ?hl0 = Some ?hl0" by (subst pad_loop.simps) simp
    moreover have "py_take N ?hl0 = ?hl0" using n0 by (simp add: py_take_nonneg)
    ultimately show ?thesis using sh len by simp
  next
    case False
    then have hl0: "?hl0 = ?ord" using n0 by (simp add: py_take_nonneg)
    let ?hl1 = "add_generic generic_hashtags N ?ord"
    have "card (set ?ord \<union> set generic_hashtags) =
        length ?ord + length (filter (\<lambda>g. g \<notin> set ?ord) generic_hashtags)"
      by (rule card_union_filter[OF d generic_distinct])
    then have "N \<le> int (length ?ord + length (filter (\<lambda>g. g \<notin> set ?ord) generic_hashtags))"
      using nle s by simp
    then have len1: "int (length ?hl1) = N"
      using add_generic_reaches[OF generic_distinct, of ?ord N] False by simp
    have "pad_loop N ?hl0 = pad_loop N ?hl1"
      using False hl0 by (subst pad_loop.simps) simp
    also have "\<dots> = Some ?hl1" using len1 by (subst pad_loop.simps) simp
    finally have "pad_loop N ?hl0 = Some ?hl1" .
    moreover have "py_take N ?hl1 = ?hl1" using n0 len1 by (simp add: py_take_nonneg)
    ultimately show ?thesis using sh len1 by simp
  qed
qed

lemma suggest_hashtags_too_many:
  assumes smp: "random_sample rnds trending_hashtags (min 2 (length trending_hashtags)) = Inr sampled"
    and big: "int (card (set (category_matches U text) \<union> set sampled \<union> set generic_hashtags)) < count"
  shows "suggest_hashtags U h rnds text count = None"
proof -
  let ?ord = "list_of_set h (category_matches U text @ sampled)"
  let ?hl1 = "add_generic generic_hashtags count ?ord"
  have d: "distinct ?ord" and s: "set ?ord = set (category_matches U text) \<union> set sampled"
    by (simp_all add: list_of_set_props)
  have fin: "finite (set ?ord \<union> set generic_hashtags)" by simp
  have "length ?ord = card (set ?ord)" using d by (simp add: distinct_card)
  also have "\<dots> \<le> card (set ?ord \<union> set generic_hashtags)"
    by (rule card_mono[OF fin]) simp
  finally have lo: "int (length ?ord) < count" using big s by simp
  then have c0: "0 \<le> count" by simp
  have hl0: "py_take count ?ord = ?ord" using lo c0 by (simp add: py_take_nonneg)
  have "length ?hl1 = card (set ?hl1)"
    using add_generic_distinct[OF d] by (simp add: distinct_card)
  also have "\<dots> \<le> card (set ?ord \<union> set generic_hashtags)"
    by (rule card_mono[OF fin]) (rule add_generic_subset)
  finally have l1: "int (length ?hl1) < count" using big s by simp
  have "add_generic generic_hashtags count ?hl1 = ?hl1"
    by (rule add_generic_nothing_new) (rule add_generic_exhausted[OF l1])
  with l1 have "pad_loop count ?hl1 = None" by (rule pad_loop_stuck)
  moreover have "pad_loop count ?ord = pad_loop count ?hl1"
    using lo by (subst pad_loop.simps) simp
  ultimately show ?thesis
    using smp hl0 by (simp add: suggest_hashtags_def Let_def)
qed

lemma remove_nth_props:
  assumes "distinct xs" "i < length xs"
  shows "distinct (take i xs @ drop (Suc i) xs)"
    and "xs ! i \<notin> set (take i xs @ drop (Suc i) xs)"
    and "set (take i xs @ drop (Suc i) xs) \<subseteq> set xs"
    and "length (take i xs @ drop (Suc i) xs) = length xs - 1"
proof -
  have xs: "xs = take i xs @ xs ! i # drop (Suc i) xs"
    using assms(2) by (rule id_take_nth_drop)
  have "distinct (take i xs @ xs ! i # drop (Suc i) xs)"
    using assms(1) xs by simp
  then show "distinct (take i xs @ drop (Suc i) xs)"
    and "xs ! i \<notin> set (take i xs @ drop (Suc i) xs)" by auto
  show "set (take i xs @ drop (Suc i) xs) \<subseteq> set xs"
    by (auto dest: in_set_takeD in_set_dropD)
  show "length (take i xs @ drop (Suc i) xs) = length xs - 1"
    using assms(2) by simp
qed

lemma pick_props:
  "distinct xs \<Longrightarrow> distinct (pick rnds xs k) \<and> set (pick rnds xs k) \<subseteq> set xs \<and>
     length (pick rnds xs k) = min k (length xs)"
proof (induction k arbitrary: rnds xs)
  case 0
  then show ?case by simp
next
  case (Suc k)
  show ?case
  proof (cases "xs = []")
    case True
    then show ?thesis by simp
  next
    case False
    define i where "i = (case rnds of [] \<Rightarrow> 0 | r # _ \<Rightarrow> r) mod length xs"
    have i: "i < length xs" using False by (simp add: i_def)
    let ?rest = "take i xs @ drop (Suc i) xs"
    note r = remove_nth_props[OF Suc.prems i]
    have ih: "distinct (pick (tl rnds) ?rest k) \<and> set (pick (tl rnds) ?rest k) \<subseteq> set ?rest \<and>
        length (pick (tl rnds) ?rest k) = min k (length ?rest)"
      by (rule Suc.IH[OF r(1)])
    have p: "pick rnds xs (Suc k) = xs ! i # pick (tl rnds) ?rest k"
      using False by (simp add: i_def Let_def)
    have "xs ! i \<in> set xs" using i by simp
    then show ?thesis
      using p ih r i by (auto simp add: min_def)
  qed
qed

lemma pools_distinct:
  "distinct (concat (map (\<lambda>(category, hashtags). py_take 3 hashtags) hashtag_database)
     @ trending_hashtags @ generic_hashtags)"
  by (simp add: hashtag_database_def trending_hashtags_def generic_hashtags_def
      py_take_def str_def)

lemma guarded_concat_props:
  fixes db :: "('k \<times> 'v list) list"
  shows "set (concat (map (\<lambda>(k, vs). if P k then f vs else []) db))
           \<subseteq> set (concat (map (\<lambda>(k, vs). f vs) db))"
    and "distinct (concat (map (\<lambda>(k, vs). f vs) db)) \<Longrightarrow>
         distinct (concat (map (\<lambda>(k, vs). if P k then f vs else []) db))"
proof -
  show s: "\<And>db :: ('k \<times> 'v list) list. set (concat (map (\<lambda>(k, vs). if P k then f vs else []) db))
           \<subseteq> set (concat (map (\<lambda>(k, vs). f vs) db))"
    by (auto split: if_splits)
  show "distinct (concat (map (\<lambda>(k, vs). f vs) db)) \<Longrightarrow>
         distinct (concat (map (\<lambda>(k, vs). if P k then f vs else []) db))"
  proof (induction db)
    case Nil
    then show ?case by simp
  next
    case (Cons a db)
    obtain k vs where a: "a = (k, vs)" by (cases a)
    define A where "A = concat (map (\<lambda>(k, vs). if P k then f vs else []) db)"
    define B where "B = concat (map (\<lambda>(k, vs). f vs) db)"
    have sub: "set A \<subseteq> set B" unfolding A_def B_def by (rule s)
    have "distinct (f vs @ B)" using Cons.prems by (simp add: a B_def)
    then have "distinct (f vs)" "distinct B" "set (f vs) \<inter> set B = {}" by simp_all
    moreover have "distinct A" using Cons.IH \<open>distinct B\<close> by (simp add: A_def B_def)
    ultimately have "distinct ((if P k then f vs else []) @ A)" using sub by auto
    then show ?case by (simp add: a A_def)
  qed
qed

lemma guarded_concat_length:
  "\<forall>(k, vs) \<in> set db. length (f vs) = n \<Longrightarrow>
   length (concat (map (\<lambda>(k, vs). if P k then f vs else []) db)) =
     n * length (filter (\<lambda>(k, vs). P k) db)"
  by (induction db) auto

lemma category_matches_props:
  "set (category_matches U text) \<subseteq>
     set (concat (map (\<lambda>(category, hashtags). py_take 3 hashtags) hashtag_database))"
  "distinct (category_matches U text)"
  "length (category_matches U text) =
     3 * length (filter (\<lambda>(category, hashtags). py_contains category (u_lower U text)) hashtag_database)"
proof -
  show "set (category_matches U text) \<subseteq>
     set (concat (map (\<lambda>(category, hashtags). py_take 3 hashtags) hashtag_database))"
    unfolding category_matches_def by (rule guarded_concat_props(1))
  have "distinct (concat (map (\<lambda>(category, hashtags). py_take 3 hashtags) hashtag_database))"
    using pools_distinct by simp
  then show "distinct (category_matches U text)"
    unfolding category_matches_def by (rule guarded_concat_props(2))
  have "\<forall>(category, hashtags) \<in> set hashtag_database. length (py_take 3 hashtags) = 3"
    by (simp add: hashtag_database_def py_take_def)
  then show "length (category_matches U text) =
     3 * length (filter (\<lambda>(category, hashtags). py_contains category (u_lower U text)) hashtag_database)"
    unfolding category_matches_def by (rule guarded_concat_length)
qed

lemma sample_props:
  assumes "random_sample rnds trending_hashtags (min 2 (length trending_hashtags)) = Inr sampled"
  shows "distinct sampled" "set sampled \<subseteq> set trending_hashtags" "length sampled = 2"
proof -
  have d: "distinct trending_hashtags"
    using pools_distinct by simp
  have l: "length trending_hashtags = 5" by (simp add: trending_hashtags_def)
  have "sampled = pick rnds trending_hashtags 2"
    using assms l by (simp add: random_sample_def)
  then show "distinct sampled" "set sampled \<subseteq> set trending_hashtags" "length sampled = 2"
    using pick_props[OF d, of rnds 2] l by simp_all
qed

lemma reachable_count:
  assumes "random_sample rnds trending_hashtags (min 2 (length trending_hashtags)) = Inr sampled"
  shows "card (set (category_matches U text) \<union> set sampled \<union> set generic_hashtags) =
     3 * length (filter (\<lambda>(category, hashtags). py_contains category (u_lower U text)) hashtag_database) + 7"
proof -
  note cm = category_matches_props[of U "text"]
  note sp = sample_props[OF assms]
  have "distinct (category_matches U text @ sampled @ generic_hashtags)"
    using pools_distinct cm(1,2) sp(1,2) by auto
  then have "card (set (category_matches U text @ sampled @ generic_hashtags)) =
      length (category_matches U text @ sampled @ generic_hashtags)"
    by (rule distinct_card)
  moreover have "length generic_hashtags = 5" by (simp add: generic_hashtags_def)
  ultimately show ?thesis
    using cm(3) sp(3) by (simp add: Un_assoc)
qed

text \<open>
  Claim C3. For every text, every order of iteration of the set and every random sample, the
  hashtags that can be reached are the three first hashtags of every matching category, the
  two sampled trending hashtags and the five generic hashtags: \<open>3 * k + 7\<close> different
  strings for \<open>k\<close> matching categories. For every count \<open>N\<close> from 0 to that number,
  \<open>suggest_hashtags\<close> returns a list of exactly \<open>N\<close> hashtags.
\<close>

theorem suggest_hashtags_exact_count:
  "\<exists>sampled. random_sample rnds trending_hashtags (min 2 (length trending_hashtags)) = Inr sampled \<and>
     card (set (category_matches U text) \<union> set sampled \<union> set generic_hashtags) =
       3 * length (filter (\<lambda>(category, hashtags). py_contains category (u_lower U text))
                    hashtag_database) + 7 \<and>
     (\<forall>N. 0 \<le> N \<and>
          N \<le> int (card (set (category_matches U text) \<union> set sampled \<union> set generic_hashtags)) \<longrightarrow>
          (\<exists>l. suggest_hashtags U h rnds text N = Some (Inr l) \<and> int (length l) = N))"
proof -
  obtain sampled where
    s: "random_sample rnds trending_hashtags (min 2 (length trending_hashtags)) = Inr sampled"
    using sample_trending by blast
  show ?thesis
    using s reachable_count[OF s] suggest_hashtags_enough[OF s] by blast
qed

theorem suggest_hashtags_exact_count_witness:
  "(\<exists>l. suggest_hashtags ascii_tables (\<lambda>_. 0) [] (str ''Our new technology product'') 5 = Some (Inr l)
        \<and> int (length l) = 5) \<and>
   (\<exists>l. suggest_hashtags ascii_tables (\<lambda>_. 0) [] (str ''Our new technology product'') 10 = Some (Inr l)
        \<and> int (length l) = 10)"
proof -
  have k: "length (filter (\<lambda>(category, hashtags).
        py_contains category (u_lower ascii_tables (str ''Our new technology product'')))
      hashtag_database) = 1"
    by (simp add: hashtag_database_def ascii_tables_def ascii_lower_def str_def)
  from suggest_hashtags_exact_count[of "[]" ascii_tables "str ''Our new technology product''" "\<lambda>_. 0"]
  obtain sampled where
    upto: "\<forall>N. 0 \<le> N \<and> N \<le> int (3 * 1 + 7) \<longrightarrow>
       (\<exists>l. suggest_hashtags ascii_tables (\<lambda>_. 0) [] (str ''Our new technology product'') N = Some (Inr l)
          \<and> int (length l) = N)"
    unfolding k by auto
  show ?thesis
    using upto[rule_format, of 5] upto[rule_format, of 10] by simp
qed

text \<open>
  Claim C2, which the code does not meet. With the empty text and the count 8 only seven
  hashtags can be reached (two trending, five generic); after the generic hashtags are used
  up the \<open>for\<close> loop adds nothing, the list stays at seven elements and the \<open>while\<close> loop
  runs for ever: \<open>suggest_hashtags\<close> does not return. The lemma
  \<open>suggest_hashtags_too_many\<close> shows the same for every text and every count above the number
  of hashtags that can be reached.
\<close>

theorem suggest_hashtags_never_returns:
  "suggest_hashtags ascii_tables (\<lambda>_. 0) [] (str '''') 8 = None"
proof -
  obtain sampled where
    s: "random_sample [] trending_hashtags (min 2 (length trending_hashtags)) = Inr sampled"
    using sample_trending by blast
  have "length (filter (\<lambda>(category, hashtags).
        py_contains category (u_lower ascii_tables (str '''')))
      hashtag_database) = 0"
    by (simp add: hashtag_database_def ascii_tables_def str_def)
  then have "card (set (category_matches ascii_tables (str '''')) \<union> set sampled \<union> set generic_hashtags) = 7"
    using reachable_count[OF s, of ascii_tables "str ''''"] by simp
  then show ?thesis
    using suggest_hashtags_too_many[OF s, of ascii_tables "str ''''" 8] by simp
qed

section \<open>Properties of ImageIdeaGenerator\<close>

lemma py_take_length_le: "0 \<le> n \<Longrightarrow> length (py_take n xs) \<le> nat n"
  by (simp add: py_take_def)

lemma py_take_subset: "set (py_take n xs) \<subseteq> set xs"
  by (auto simp add: py_take_def dest: in_set_takeD)

lemma re_findall_words_sublist:
  "w \<in> set (re_findall_words U s) \<Longrightarrow> sublist w s \<and> w \<noteq> [] \<and> (\<forall>c \<in> set w. u_isword U c)"
proof (induction U s rule: re_findall_words.induct)
  case (1 U)
  then show ?case by simp
next
  case (2 U c cs)
  show ?case
  proof (cases "u_isword U c")
    case False
    with 2 have "sublist w cs \<and> w \<noteq> [] \<and> (\<forall>c \<in> set w. u_isword U c)" by simp
    then show ?thesis by (simp add: sublist_Cons_right)
  next
    case True
    let ?run = "takeWhile (u_isword U) (c # cs)"
    let ?rest = "dropWhile (u_isword U) (c # cs)"
    from 2(3) True have "w = ?run \<or> w \<in> set (re_findall_words U ?rest)" by simp
    then show ?thesis
    proof
      assume w: "w = ?run"
      have "sublist ?run (c # cs)" by (rule sublist_takeWhile)
      then have "sublist w (c # cs)" by (simp only: w)
      moreover have "w \<noteq> []" using True by (simp add: w)
      moreover have "\<forall>c \<in> set w. u_isword U c" unfolding w by (auto dest: set_takeWhileD)
      ultimately show ?thesis by blast
    next
      assume "w \<in> set (re_findall_words U ?rest)"
      then have r: "sublist w ?rest \<and> w \<noteq> [] \<and> (\<forall>c \<in> set w. u_isword U c)"
        by (rule 2(1)[OF True])
      then obtain ps ss where "?rest = ps @ w @ ss" unfolding sublist_def by blast
      then have "?run @ ?rest = (?run @ ps) @ w @ ss" by (simp only: append_assoc)
      then have "c # cs = (?run @ ps) @ w @ ss" by (simp only: takeWhile_dropWhile_id)
      then have "sublist w (c # cs)" unfolding sublist_def by blast
      with r show ?thesis by blast
    qed
  qed
qed

lemma ascii_lower_no_upper: "\<not> (65 \<le> ascii_lower c \<and> ascii_lower c \<le> 90)"
  by (simp add: ascii_lower_def)

text \<open>
  Claim C7. For every text and every Unicode table, \<open>_extract_keywords\<close> returns at most
  five tokens; no token is in the stopword set, every token has more than three characters,
  and every token is a run of word characters of the lowercased text \<open>text.lower()\<close>. With
  the ASCII tables a token holds no uppercase letter and lowercasing it changes nothing.
\<close>

theorem extract_keywords_filtered:
  "length (extract_keywords U text) \<le> 5 \<and>
   (\<forall>w \<in> set (extract_keywords U text).
      w \<notin> common_words \<and> 3 < length w \<and>
      sublist w (u_lower U text) \<and> (\<forall>c \<in> set w. u_isword U c)) \<and>
   (\<forall>w \<in> set (extract_keywords ascii_tables text).
      map ascii_lower w = w \<and> (\<forall>c \<in> set w. \<not> (65 \<le> c \<and> c \<le> 90)))"
proof -
  have len: "length (extract_keywords U text) \<le> 5"
    using py_take_length_le[of 5] by (simp add: extract_keywords_def Let_def)
  have mem: "\<And>V w. w \<in> set (extract_keywords V text) \<Longrightarrow>
      w \<notin> common_words \<and> 3 < length w \<and> w \<in> set (re_findall_words V (u_lower V text))"
    using py_take_subset by (fastforce simp add: extract_keywords_def Let_def)
  have gen: "\<forall>w \<in> set (extract_keywords U text).
      w \<notin> common_words \<and> 3 < length w \<and>
      sublist w (u_lower U text) \<and> (\<forall>c \<in> set w. u_isword U c)"
    using mem[of _ U] re_findall_words_sublist[of _ U "u_lower U text"] by blast
  have asc: "\<forall>w \<in> set (extract_keywords ascii_tables text).
      map ascii_lower w = w \<and> (\<forall>c \<in> set w. \<not> (65 \<le> c \<and> c \<le> 90))"
  proof
    fix w assume "w \<in> set (extract_keywords ascii_tables text)"
    then have "sublist w (map ascii_lower text)"
      using mem[of w ascii_tables] re_findall_words_sublist[of w ascii_tables "u_lower ascii_tables text"]
      by (simp add: ascii_tables_def)
    then have "set w \<subseteq> ascii_lower ` set text"
      using set_mono_sublist by fastforce
    then have up: "\<forall>c \<in> set w. \<not> (65 \<le> c \<and> c \<le> 90)"
      using ascii_lower_no_upper by blast
    then have "map ascii_lower w = w"
      by (induction w) (auto simp add: ascii_lower_def)
    with up show "map ascii_lower w = w \<and> (\<forall>c \<in> set w. \<not> (65 \<le> c \<and> c \<le> 90))" by simp
  qed
  show ?thesis using len gen asc by blast
qed

theorem extract_keywords_filtered_witness:
  "extract_keywords ascii_tables (str ''The QUICK brown fox jumps with the data'')
     = [str ''quick'', str ''brown'', str ''jumps'', str ''data''] \<and>
   length (extract_keywords ascii_tables (str ''The QUICK brown fox jumps with the data'')) \<le> 5 \<and>
   str ''quick'' \<notin> common_words \<and> 3 < length (str ''quick'') \<and>
   map ascii_lower (str ''quick'') = str ''quick''"
proof -
  have e: "extract_keywords ascii_tables (str ''The QUICK brown fox jumps with the data'')
     = [str ''quick'', str ''brown'', str ''jumps'', str ''data'']"
    by (simp add: extract_keywords_def ascii_tables_def ascii_lower_def ascii_isword_def
        common_words_def py_take_def str_def)
  show ?thesis
    using extract_keywords_filtered[of ascii_tables "str ''The QUICK brown fox jumps with the data''"]
    unfolding e by simp
qed

text \<open>
  Claim C10. For every text, with or without keywords, \<open>generate_ideas\<close> returns exactly five
  ideas: the three styles and two elements give six candidates, and the result is the first
  five of them, in the order of the loops.
\<close>

theorem generate_ideas_five:
  "length (generate_ideas U text_post) = 5 \<and>
   length (concat (map (\<lambda>style. map (make_idea U (extract_keywords U text_post) style)
                                  (py_take 2 image_elements))
                      (py_take 3 image_styles))) = 6 \<and>
   generate_ideas U text_post =
     take 5 (concat (map (\<lambda>style. map (make_idea U (extract_keywords U text_post) style)
                                     (py_take 2 image_elements))
                         (py_take 3 image_styles)))"
  by (simp add: generate_ideas_def Let_def py_take_def image_styles_def image_elements_def)

section \<open>Properties of the functions of the results page\<close>

lemma ci_prefix_iff:
  "ci_prefix U key s \<longleftrightarrow> (\<exists>m ss. s = m @ ss \<and> list_all2 (u_ieq U) key m)"
proof (induction U key s rule: ci_prefix.induct)
  case (1 U s)
  then show ?case by simp
next
  case (2 U p ps)
  then show ?case by simp
next
  case (3 U p ps c cs)
  show ?case
  proof
    assume "ci_prefix U (p # ps) (c # cs)"
    then obtain m ss where "u_ieq U p c" "cs = m @ ss" "list_all2 (u_ieq U) ps m"
      using 3 by auto
    then have "c # cs = (c # m) @ ss \<and> list_all2 (u_ieq U) (p # ps) (c # m)" by simp
    then show "\<exists>m ss. c # cs = m @ ss \<and> list_all2 (u_ieq U) (p # ps) m" by blast
  next
    assume "\<exists>m ss. c # cs = m @ ss \<and> list_all2 (u_ieq U) (p # ps) m"
    then obtain m ss where m: "c # cs = m @ ss" "list_all2 (u_ieq U) (p # ps) m" by blast
    then obtain m' where "m = c # m'" "u_ieq U p c" "list_all2 (u_ieq U) ps m'" "cs = m' @ ss"
      by (cases m) auto
    then show "ci_prefix U (p # ps) (c # cs)" using 3 by auto
  qed
qed

lemma re_search_key_None_iff:
  "re_search_key U key s = None \<longleftrightarrow>
     \<not> (\<exists>ps m ss. s = ps @ m @ ss \<and> list_all2 (u_ieq U) key m)"
proof (induction s)
  case Nil
  show ?case by (cases key) auto
next
  case (Cons c cs)
  show ?case
  proof (cases "ci_prefix U key (c # cs)")
    case True
    then obtain m ss where "c # cs = [] @ m @ ss \<and> list_all2 (u_ieq U) key m"
      unfolding ci_prefix_iff by auto
    then have "\<exists>ps m ss. c # cs = ps @ m @ ss \<and> list_all2 (u_ieq U) key m" by blast
    with True show ?thesis by simp
  next
    case False
    have "(\<exists>ps m ss. c # cs = ps @ m @ ss \<and> list_all2 (u_ieq U) key m) \<longleftrightarrow>
          (\<exists>ps m ss. cs = ps @ m @ ss \<and> list_all2 (u_ieq U) key m)"
    proof
      assume "\<exists>ps m ss. c # cs = ps @ m @ ss \<and> list_all2 (u_ieq U) key m"
      then obtain ps m ss where o: "c # cs = ps @ m @ ss" "list_all2 (u_ieq U) key m" by blast
      show "\<exists>ps m ss. cs = ps @ m @ ss \<and> list_all2 (u_ieq U) key m"
      proof (cases ps)
        case Nil
        with o have "ci_prefix U key (c # cs)" unfolding ci_prefix_iff by auto
        with False show ?thesis by simp
      next
        case (Cons a ps')
        with o have "cs = ps' @ m @ ss" by simp
        with o(2) show ?thesis by blast
      qed
    next
      assume "\<exists>ps m ss. cs = ps @ m @ ss \<and> list_all2 (u_ieq U) key m"
      then obtain ps m ss where "cs = ps @ m @ ss" "list_all2 (u_ieq U) key m" by blast
      then have "c # cs = (c # ps) @ m @ ss \<and> list_all2 (u_ieq U) key m" by simp
      then show "\<exists>ps m ss. c # cs = ps @ m @ ss \<and> list_all2 (u_ieq U) key m" by blast
    qed
    with False Cons show ?thesis by simp
  qed
qed

lemma match_digits_dot_suffix: "match_digits_dot U s = Some r \<Longrightarrow> suffix r s"
  by (induction s arbitrary: r) (auto split: if_splits option.splits intro: suffix_ConsI)

lemma match_number_dot_suffix: "match_number_dot U s = Some r \<Longrightarrow> suffix r s"
  by (auto simp add: match_number_dot_def split: list.splits if_splits
      dest!: match_digits_dot_suffix intro: suffix_ConsI)

lemma match_marker_suffix: "match_marker U s = Some rest \<Longrightarrow> suffix rest s"
proof -
  assume "match_marker U s = Some rest"
  then obtain r where r: "rest = dropWhile (u_isspace U) r" "suffix r s"
    by (auto simp add: match_marker_def split: list.splits if_splits option.splits
        dest!: match_number_dot_suffix intro: suffix_ConsI)
  have "suffix (dropWhile (u_isspace U) r) r" by (rule suffix_dropWhile)
  with r show ?thesis using suffix_order.order_trans by blast
qed

lemma re_sub_markers_prefix:
  "prefix m (re_sub_markers U s) \<Longrightarrow> 10 \<notin> set m \<Longrightarrow> prefix m s"
proof (induction U s arbitrary: m rule: re_sub_markers.induct)
  case (1 U)
  then show ?case by simp
next
  case (2 U c cs)
  show ?case
  proof (cases "match_marker U (c # cs)")
    case (Some rest)
    with 2(3) have "prefix m (10 # re_sub_markers U rest)" by simp
    with 2(4) have "m = []" by (cases m) auto
    then show ?thesis by simp
  next
    case None
    with 2(3) have p: "prefix m (c # re_sub_markers U cs)" by simp
    show ?thesis
    proof (cases m)
      case Nil
      then show ?thesis by simp
    next
      case (Cons a m')
      with p have "a = c" "prefix m' (re_sub_markers U cs)" by simp_all
      moreover have "10 \<notin> set m'" using 2(4) Cons by simp
      ultimately show ?thesis using 2(1)[OF None] Cons by simp
    qed
  qed
qed

lemma re_sub_markers_sublist:
  "sublist m (re_sub_markers U s) \<Longrightarrow> 10 \<notin> set m \<Longrightarrow> sublist m s"
proof (induction U s rule: re_sub_markers.induct)
  case (1 U)
  then show ?case by simp
next
  case (2 U c cs)
  show ?case
  proof (cases "match_marker U (c # cs)")
    case (Some rest)
    with 2(3) have "sublist m (10 # re_sub_markers U rest)" by simp
    then have "prefix m (10 # re_sub_markers U rest) \<or> sublist m (re_sub_markers U rest)"
      by (simp add: sublist_Cons_right)
    then show ?thesis
    proof
      assume "prefix m (10 # re_sub_markers U rest)"
      with 2(4) have "m = []" by (cases m) auto
      then show ?thesis by simp
    next
      assume "sublist m (re_sub_markers U rest)"
      then have "sublist m rest" using 2(2)[OF Some] 2(4) by simp
      moreover have "sublist rest (c # cs)"
        using match_marker_suffix[OF Some] by (rule suffix_imp_sublist)
      ultimately show ?thesis using sublist_order.order_trans by blast
    qed
  next
    case None
    with 2(3) have "sublist m (c # re_sub_markers U cs)" by simp
    then have "prefix m (c # re_sub_markers U cs) \<or> sublist m (re_sub_markers U cs)"
      by (simp add: sublist_Cons_right)
    then show ?thesis
    proof
      assume "prefix m (c # re_sub_markers U cs)"
      then have "prefix m (re_sub_markers U (c # cs))" using None by simp
      then have "prefix m (c # cs)" using 2(4) by (rule re_sub_markers_prefix)
      then show ?thesis by (rule prefix_imp_sublist)
    next
      assume "sublist m (re_sub_markers U cs)"
      then have "sublist m cs" using 2(1)[OF None] 2(4) by simp
      then show ?thesis by (simp add: sublist_Cons_right)
    qed
  qed
qed

lemma list_all2_no_newline:
  "list_all2 (u_ieq U) key m \<Longrightarrow> \<forall>p \<in> set key. \<not> u_ieq U p 10 \<Longrightarrow> 10 \<notin> set m"
  by (induction rule: list_all2_induct) auto

lemma label_in_normalized:
  assumes "\<exists>ps m ss. re_sub_markers U text = ps @ m @ ss \<and> list_all2 (u_ieq U) key m"
    and "\<forall>p \<in> set key. \<not> u_ieq U p 10"
  shows "\<exists>ps m ss. text = ps @ m @ ss \<and> list_all2 (u_ieq U) key m"
proof -
  from assms(1) obtain ps m ss where
    o: "re_sub_markers U text = ps @ m @ ss" "list_all2 (u_ieq U) key m" by blast
  then have "sublist m (re_sub_markers U text)" unfolding sublist_def by blast
  moreover have "10 \<notin> set m" using o(2) assms(2) by (rule list_all2_no_newline)
  ultimately have "sublist m text" by (rule re_sub_markers_sublist)
  then show ?thesis using o(2) unfolding sublist_def by blast
qed

lemma parse_complex_result_field:
  "key \<in> set result_keys \<Longrightarrow>
   map_of (parse_complex_result U text) key =
     Some (case re_search_key U key (re_sub_markers U text) of
             None \<Rightarrow> [] | Some g \<Rightarrow> py_strip U g)"
  by (simp add: parse_complex_result_def Let_def map_of_map_restrict)

text \<open>
  Claim C5. For every input string and every Unicode table, \<open>parse_complex_result\<close> returns
  the dictionary with the four keys Caption, Post Idea, Hashtags and Visual/Design Suggestion,
  each with a value. The value of a key that matches nowhere in the normalized text, without
  regard to case, is the empty string; the same holds for a key that matches nowhere in the
  input text itself, as no letter of a key matches a newline. The function has no branch that
  raises.
\<close>

theorem parse_complex_result_total:
  "map fst (parse_complex_result U text) = result_keys \<and>
   (\<forall>key \<in> set result_keys.
      (\<exists>v. map_of (parse_complex_result U text) key = Some v) \<and>
      (\<not> (\<exists>ps m ss. re_sub_markers U text = ps @ m @ ss \<and> list_all2 (u_ieq U) key m) \<longrightarrow>
         map_of (parse_complex_result U text) key = Some []) \<and>
      ((\<forall>p \<in> set key. \<not> u_ieq U p 10) \<and>
       \<not> (\<exists>ps m ss. text = ps @ m @ ss \<and> list_all2 (u_ieq U) key m) \<longrightarrow>
         map_of (parse_complex_result U text) key = Some []))"
proof -
  have keys: "map fst (parse_complex_result U text) = result_keys"
    by (simp add: parse_complex_result_def Let_def comp_def)
  have norm: "\<And>key. key \<in> set result_keys \<Longrightarrow>
      \<not> (\<exists>ps m ss. re_sub_markers U text = ps @ m @ ss \<and> list_all2 (u_ieq U) key m) \<Longrightarrow>
      map_of (parse_complex_result U text) key = Some []"
  proof -
    fix key
    assume k: "key \<in> set result_keys"
      and nf: "\<not> (\<exists>ps m ss. re_sub_markers U text = ps @ m @ ss \<and> list_all2 (u_ieq U) key m)"
    from nf have "re_search_key U key (re_sub_markers U text) = None"
      using re_search_key_None_iff by blast
    then show "map_of (parse_complex_result U text) key = Some []"
      using k by (simp add: parse_complex_result_field)
  qed
  have raw: "\<And>key. key \<in> set result_keys \<Longrightarrow> \<forall>p \<in> set key. \<not> u_ieq U p 10 \<Longrightarrow>
      \<not> (\<exists>ps m ss. text = ps @ m @ ss \<and> list_all2 (u_ieq U) key m) \<Longrightarrow>
      map_of (parse_complex_result U text) key = Some []"
  proof -
    fix key
    assume k: "key \<in> set result_keys"
      and nn: "\<forall>p \<in> set key. \<not> u_ieq U p 10"
      and nf: "\<not> (\<exists>ps m ss. text = ps @ m @ ss \<and> list_all2 (u_ieq U) key m)"
    have "\<not> (\<exists>ps m ss. re_sub_markers U text = ps @ m @ ss \<and> list_all2 (u_ieq U) key m)"
    proof
      assume "\<exists>ps m ss. re_sub_markers U text = ps @ m @ ss \<and> list_all2 (u_ieq U) key m"
      then have "\<exists>ps m ss. text = ps @ m @ ss \<and> list_all2 (u_ieq U) key m"
        using nn by (rule label_in_normalized)
      with nf show False by contradiction
    qed
    with k show "map_of (parse_complex_result U text) key = Some []" by (rule norm)
  qed
  show ?thesis
  proof (intro conjI ballI impI)
    show "map fst (parse_complex_result U text) = result_keys" by (rule keys)
  next
    fix key assume "key \<in> set result_keys"
    then show "\<exists>v. map_of (parse_complex_result U text) key = Some v"
      by (simp add: parse_complex_result_field)
  next
    fix key
    assume "key \<in> set result_keys"
      and "\<not> (\<exists>ps m ss. re_sub_markers U text = ps @ m @ ss \<and> list_all2 (u_ieq U) key m)"
    then show "map_of (parse_complex_result U text) key = Some []" by (rule norm)
  next
    fix key
    assume k: "key \<in> set result_keys"
      and c: "(\<forall>p \<in> set key. \<not> u_ieq U p 10) \<and>
        \<not> (\<exists>ps m ss. text = ps @ m @ ss \<and> list_all2 (u_ieq U) key m)"
    from c have "\<forall>p \<in> set key. \<not> u_ieq U p 10"
      and "\<not> (\<exists>ps m ss. text = ps @ m @ ss \<and> list_all2 (u_ieq U) key m)" by simp_all
    with k show "map_of (parse_complex_result U text) key = Some []" by (rule raw)
  qed
qed

theorem parse_complex_result_total_witness:
  "str ''Hashtags'' \<in> set result_keys \<and>
   re_search_key ascii_tables (str ''Hashtags'') (str ''Caption: hi'') = None \<and>
   map_of (parse_complex_result ascii_tables (str ''Caption: hi'')) (str ''Hashtags'') = Some []"
proof -
  have k: "str ''Hashtags'' \<in> set result_keys" by (simp add: result_keys_def)
  have n: "\<forall>p \<in> set (str ''Hashtags''). \<not> u_ieq ascii_tables p 10"
    by (simp add: ascii_tables_def ascii_lower_def str_def)
  have s: "re_search_key ascii_tables (str ''Hashtags'') (str ''Caption: hi'') = None"
    by (simp add: ascii_tables_def ascii_lower_def str_def)
  then have a: "\<not> (\<exists>ps m ss. str ''Caption: hi'' = ps @ m @ ss \<and>
      list_all2 (u_ieq ascii_tables) (str ''Hashtags'') m)"
    using re_search_key_None_iff by blast
  note t = parse_complex_result_total[of ascii_tables "str ''Caption: hi''"]
  from t have "\<forall>key \<in> set result_keys.
      (\<forall>p \<in> set key. \<not> u_ieq ascii_tables p 10) \<and>
      \<not> (\<exists>ps m ss. str ''Caption: hi'' = ps @ m @ ss \<and> list_all2 (u_ieq ascii_tables) key m) \<longrightarrow>
      map_of (parse_complex_result ascii_tables (str ''Caption: hi'')) key = Some []"
    by simp
  from this[rule_format, OF k] n a
  have "map_of (parse_complex_result ascii_tables (str ''Caption: hi'')) (str ''Hashtags'') = Some []"
    by simp
  with k s show ?thesis by simp
qed

text \<open>
  Claim C6. The numbered list markers of the example become newlines, and the parser returns
  the caption \<open>Great day\<close>, the post idea \<open>Go outside\<close>, the hashtags \<open>#sun, #fun\<close> and
  an empty visual suggestion.
\<close>

theorem parse_complex_result_example:
  "re_sub_markers ascii_tables
     (str ''1. Caption: Great day'' @ [10] @ str ''2. Post Idea: Go outside'' @ [10]
        @ str ''3. Hashtags: #sun, #fun'')
     = [10] @ str ''Caption: Great day'' @ [10] @ str ''Post Idea: Go outside'' @ [10]
        @ str ''Hashtags: #sun, #fun'' \<and>
   parse_complex_result ascii_tables
     (str ''1. Caption: Great day'' @ [10] @ str ''2. Post Idea: Go outside'' @ [10]
        @ str ''3. Hashtags: #sun, #fun'')
     = [(str ''Caption'', str ''Great day''),
        (str ''Post Idea'', str ''Go outside''),
        (str ''Hashtags'', str ''#sun, #fun''),
        (str ''Visual/Design Suggestion'', str '''')]"
  by (simp add: parse_complex_result_def result_keys_def Let_def match_marker_def
      match_number_dot_def group1_def py_strip_def ascii_tables_def ascii_lower_def
      ascii_isspace_def ascii_isdecimal_def str_def)

lemma py_contains_iff: "py_contains sub s \<longleftrightarrow> sublist sub s"
  by (induction s) (simp_all add: sublist_Cons_right)

lemma split_first_leftmost:
  "sep \<noteq> [] \<Longrightarrow> sublist sep line \<Longrightarrow>
   \<exists>before after. line = before @ sep @ after \<and> split_first sep line = [before, after] \<and>
     (\<forall>ps ss. line = ps @ sep @ ss \<longrightarrow> length before \<le> length ps)"
proof (induction line)
  case Nil
  then show ?case by simp
next
  case (Cons c cs)
  show ?case
  proof (cases "prefix sep (c # cs)")
    case True
    then obtain zs where zs: "c # cs = sep @ zs" by (auto simp add: prefix_def)
    have sp: "split_first sep (c # cs) = [[], drop (length sep) (c # cs)]"
      using True by simp
    have "drop (length sep) (c # cs) = zs" using zs by simp
    with sp have sp': "split_first sep (c # cs) = [[], zs]" by (simp only:)
    have "c # cs = [] @ sep @ zs" using zs by simp
    moreover have "\<forall>ps ss. c # cs = ps @ sep @ ss \<longrightarrow> length ([] :: pystr) \<le> length ps" by simp
    ultimately show ?thesis using sp' by blast
  next
    case False
    with Cons.prems(2) have "sublist sep cs" by (simp add: sublist_Cons_right)
    from Cons.IH[OF Cons.prems(1) this] obtain before after where
      ih: "cs = before @ sep @ after" "split_first sep cs = [before, after]"
        "\<forall>ps ss. cs = ps @ sep @ ss \<longrightarrow> length before \<le> length ps" by blast
    have sp: "split_first sep (c # cs) = [c # before, after]"
      using False ih(2) by simp
    have eq: "c # cs = (c # before) @ sep @ after" using ih(1) by simp
    have least: "\<forall>ps ss. c # cs = ps @ sep @ ss \<longrightarrow> length (c # before) \<le> length ps"
    proof (intro allI impI)
      fix ps ss assume a: "c # cs = ps @ sep @ ss"
      show "length (c # before) \<le> length ps"
      proof (cases ps)
        case Nil
        with a have "prefix sep (c # cs)" by (simp add: prefix_def)
        with False show ?thesis by simp
      next
        case (Cons p ps')
        with a have "cs = ps' @ sep @ ss" by simp
        with ih(3) have "length before \<le> length ps'" by blast
        with Cons show ?thesis by simp
      qed
    qed
    from eq sp least show ?thesis by blast
  qed
qed

lemma split_title_desc_from_none:
  "\<forall>sep \<in> set seps. \<not> sublist sep line \<Longrightarrow>
   split_title_desc_from U seps line = Inr (py_strip U line, None)"
  by (induction seps) (simp_all add: py_contains_iff)

lemma split_title_desc_from_first:
  assumes "\<forall>s \<in> set pre. \<not> sublist s line" and "sublist sep line" and "sep \<noteq> []"
  shows "\<exists>before after. line = before @ sep @ after \<and>
     (\<forall>ps ss. line = ps @ sep @ ss \<longrightarrow> length before \<le> length ps) \<and>
     split_title_desc_from U (pre @ sep # post) line =
       Inr (py_strip U before, Some (py_strip U after))"
  using assms(1)
proof (induction pre)
  case Nil
  from split_first_leftmost[OF assms(3,2)] obtain before after where
    s: "line = before @ sep @ after" "split_first sep line = [before, after]"
      "\<forall>ps ss. line = ps @ sep @ ss \<longrightarrow> length before \<le> length ps" by blast
  have "split_title_desc_from U ([] @ sep # post) line =
      Inr (py_strip U before, Some (py_strip U after))"
    using assms(2,3) s(2) by (simp add: py_contains_iff py_split1_def py_index_def)
  with s(1,3) show ?case by blast
next
  case (Cons a pre)
  then show ?case by (simp add: py_contains_iff)
qed

lemma split_title_desc_code_separators:
  "(\<forall>sep \<in> set separators. \<not> sublist sep line) \<longrightarrow>
     split_title_desc U line = Inr (py_strip U line, None)"
  "separators = pre @ sep # post \<and> (\<forall>s \<in> set pre. \<not> sublist s line) \<and> sublist sep line \<longrightarrow>
     (\<exists>before after. line = before @ sep @ after \<and>
        (\<forall>ps ss. line = ps @ sep @ ss \<longrightarrow> length before \<le> length ps) \<and>
        split_title_desc U line = Inr (py_strip U before, Some (py_strip U after)))"
proof -
  show "(\<forall>sep \<in> set separators. \<not> sublist sep line) \<longrightarrow>
     split_title_desc U line = Inr (py_strip U line, None)"
    by (simp add: split_title_desc_def split_title_desc_from_none)
  show "separators = pre @ sep # post \<and> (\<forall>s \<in> set pre. \<not> sublist s line) \<and> sublist sep line \<longrightarrow>
     (\<exists>before after. line = before @ sep @ after \<and>
        (\<forall>ps ss. line = ps @ sep @ ss \<longrightarrow> length before \<le> length ps) \<and>
        split_title_desc U line = Inr (py_strip U before, Some (py_strip U after)))"
  proof
    assume a: "separators = pre @ sep # post \<and> (\<forall>s \<in> set pre. \<not> sublist s line) \<and> sublist sep line"
    have "\<forall>s \<in> set separators. s \<noteq> []" by (simp add: separators_def str_def)
    moreover from a have "sep \<in> set separators" by (metis in_set_conv_decomp)
    ultimately have "sep \<noteq> []" by blast
    with a show "\<exists>before after. line = before @ sep @ after \<and>
        (\<forall>ps ss. line = ps @ sep @ ss \<longrightarrow> length before \<le> length ps) \<and>
        split_title_desc U line = Inr (py_strip U before, Some (py_strip U after))"
      using split_title_desc_from_first[of pre line sep U post]
      by (simp add: split_title_desc_def)
  qed
qed

lemma split_title_desc_stored_separator:
  "split_title_desc ascii_tables (str ''a '' @ [0x201A, 0xC4, 0xEC] @ str '' b'')
     = Inr (str ''a'', Some (str ''b''))"
  by (simp add: split_title_desc_def separators_def py_strip_def ascii_tables_def
      ascii_isspace_def py_split1_def py_index_def str_def)

text \<open>
  Claim C8, which the code does not meet. A line with the separator \<open>" - "\<close> of the
  claim (a space, the en dash U+2013, a space) is not split: the separator list of the source
  holds the five code points of \<open>separators\<close> in its place, so no separator is found and the
  whole line is returned as the title, with no description. The lemma
  \<open>split_title_desc_code_separators\<close> shows that the function splits at the leftmost occurrence
  of the first separator of its own list that occurs, and returns the stripped line when none
  occurs; \<open>split_title_desc_stored_separator\<close> shows a line that is split at the stored
  code points.
\<close>

theorem split_title_desc_en_dash:
  "split_title_desc ascii_tables (str ''Sunset '' @ [0x2013] @ str '' golden hour'')
     = Inr (str ''Sunset '' @ [0x2013] @ str '' golden hour'', None)"
  by (simp add: split_title_desc_def separators_def py_strip_def ascii_tables_def
      ascii_isspace_def str_def)

end
